theory Spec2Isabelle
  imports Main
begin

section \<open>Promises\<close>

text \<open>
  A JavaScript promise is pending, fulfilled with a value, or rejected with a reason.
  The model works on the state a promise has at the moment it is looked at.
\<close>

datatype ('v, 'r) promise = Pending | Fulfilled 'v | Rejected 'r

datatype status = pending | fulfilled | rejected

text \<open>
  \<^verbatim>\<open>Promise.race\<close> subscribes to its entries in iteration order, so among entries that
  are already settled the first one wins; with no settled entry it stays pending.
\<close>

fun race :: "('v, 'r) promise list \<Rightarrow> ('v, 'r) promise" where
  "race [] = Pending"
| "race (Pending # ps) = race ps"
| "race (Fulfilled v # ps) = Fulfilled v"
| "race (Rejected r # ps) = Rejected r"

text \<open>
  \<^verbatim>\<open>GetState\<close> races \<open>p\<close> against a fresh object \<open>t\<close>. A non-promise entry of
  \<^verbatim>\<open>Promise.race\<close> counts as already fulfilled with itself. \<open>Sentinel\<close> is \<open>t\<close>,
  \<open>Value v\<close> a value \<open>p\<close> was fulfilled with (never identical to the fresh \<open>t\<close>).
  The result is \<open>None\<close> when the promise returned by \<^verbatim>\<open>GetState\<close> would never settle.
\<close>

datatype 'v raced = Sentinel | Value 'v

fun entry :: "('v, 'r) promise \<Rightarrow> ('v raced, 'r) promise" where
  "entry Pending = Pending"
| "entry (Fulfilled v) = Fulfilled (Value v)"
| "entry (Rejected r) = Rejected r"

definition GetState :: "('v, 'r) promise \<Rightarrow> status option" where
  "GetState p =
     (let t = Sentinel in
      case race [entry p, Fulfilled t] of
        Fulfilled v \<Rightarrow> Some (if v = t then pending else fulfilled)
      | Rejected _ \<Rightarrow> Some rejected
      | Pending \<Rightarrow> None)"

text \<open>
  \<^verbatim>\<open>Promise.any\<close>: the first fulfilled entry wins; when every entry is rejected (also
  when there is none) it rejects with an AggregateError of the reasons; otherwise pending.
  \<^verbatim>\<open>Promise.all\<close>: the first rejected entry rejects it; when every entry is fulfilled
  it is fulfilled; otherwise pending.
\<close>

datatype 'r error =
    AggregateError "'r list"
  | EvalError string
  | Error string
  | Reason 'r

fun is_rejected :: "('v, 'r) promise \<Rightarrow> bool" where
  "is_rejected (Rejected r) = True"
| "is_rejected p = False"

fun is_fulfilled :: "('v, 'r) promise \<Rightarrow> bool" where
  "is_fulfilled (Fulfilled v) = True"
| "is_fulfilled p = False"

fun first_fulfilled :: "('v, 'r) promise list \<Rightarrow> 'v option" where
  "first_fulfilled [] = None"
| "first_fulfilled (Fulfilled v # ps) = Some v"
| "first_fulfilled (p # ps) = first_fulfilled ps"

fun first_rejected :: "('v, 'r) promise list \<Rightarrow> 'r option" where
  "first_rejected [] = None"
| "first_rejected (Rejected r # ps) = Some r"
| "first_rejected (p # ps) = first_rejected ps"

fun reasons :: "('v, 'r) promise list \<Rightarrow> 'r list" where
  "reasons [] = []"
| "reasons (Rejected r # ps) = r # reasons ps"
| "reasons (p # ps) = reasons ps"

definition promise_any :: "('v, 'r) promise list \<Rightarrow> ('v, 'r error) promise" where
  "promise_any ps =
     (case first_fulfilled ps of
        Some v \<Rightarrow> Fulfilled v
      | None \<Rightarrow> if list_all is_rejected ps then Rejected (AggregateError (reasons ps))
                else Pending)"

definition promise_all :: "('v, 'r) promise list \<Rightarrow> (unit, 'r error) promise" where
  "promise_all ps =
     (case first_rejected ps of
        Some r \<Rightarrow> Rejected (Reason r)
      | None \<Rightarrow> if list_all is_fulfilled ps then Fulfilled () else Pending)"

section \<open>The pool object and the promise heap\<close>

datatype strategy = eager | lazy

text \<open>How the promise returned by \<^verbatim>\<open>fn(...args)\<close> settles.\<close>

datatype 'r outcome = Resolves | Rejects 'r

text \<open>
  A handle is the promise built by \<^verbatim>\<open>wrapTaskWithIndex\<close>: \<open>hindex\<close> is the
  \<^verbatim>\<open>index\<close> its callbacks have captured, \<open>htask\<close> the submitted operation (function
  and arguments), \<open>hstate\<close> its current state.
\<close>

record ('t, 'r) handle =
  hindex :: nat
  htask :: 't
  hstate :: "(nat, 'r) promise"

text \<open>
  The fields of \<^verbatim>\<open>AsyncPool\<close> keep their names. The array \<open>pool\<close> holds
  references into \<open>heap\<close>, the list of all handles ever created, so that a handle that
  was overwritten in the array is still there. \<open>waiters\<close> are the calls of
  \<^verbatim>\<open>submit\<close> that are suspended at \<^verbatim>\<open>await Promise.any(this.pool)\<close> without the caller
  waiting for them, each with the array contents it subscribed to and its operation.
  \<open>workList\<close> is the array of the \<^verbatim>\<open>WorkList\<close> that owns the pool.
\<close>

record ('t, 'r) state =
  maxWorkers :: int
  errorStrategy :: strategy
  pool :: "nat list"
  errors :: "'r list"
  counter :: nat
  start :: "(nat \<times> nat) option"
  count :: bool
  closed :: bool
  heap :: "('t, 'r) handle list"
  waiters :: "(nat list \<times> 't) list"
  workList :: "'t list"

definition AsyncPool :: "int \<Rightarrow> strategy \<Rightarrow> ('t, 'r) state" where
  "AsyncPool mw es =
     \<lparr>maxWorkers = mw, errorStrategy = es, pool = [], errors = [], counter = 0,
      start = None, count = False, closed = False, heap = [], waiters = [],
      workList = []\<rparr>"

definition states :: "('t, 'r) state \<Rightarrow> nat list \<Rightarrow> (nat, 'r) promise list" where
  "states s refs = map (\<lambda>p. hstate (heap s ! p)) refs"

definition getVacantIndex :: "('t, 'r) state \<Rightarrow> nat option" where
  "getVacantIndex s =
     (if int (length (pool s)) < maxWorkers s then Some (length (pool s)) else None)"

text \<open>
  The two callbacks of \<^verbatim>\<open>.then\<close> in \<^verbatim>\<open>wrapTaskWithIndex\<close>, run when the operation
  settles: the state the handle takes, and the pool after the callback.
\<close>

definition wrapped :: "nat \<Rightarrow> 'r outcome \<Rightarrow> ('t, 'r) state
    \<Rightarrow> (nat, 'r) promise \<times> ('t, 'r) state" where
  "wrapped index out s =
     (case out of
        Resolves \<Rightarrow> (Fulfilled index, s)
      | Rejects reason \<Rightarrow>
          if errorStrategy s = lazy
          then (Fulfilled index,
                s\<lparr>errors := errors s @ [reason],
                  counter := (if count s then counter s + 1 else counter s)\<rparr>)
          else (Rejected reason, s))"

text \<open>
  \<^verbatim>\<open>wrapTaskWithIndex\<close> starts the operation and allocates its handle, pending;
  it returns the reference.
\<close>

definition wrapTaskWithIndex :: "nat \<Rightarrow> 't \<Rightarrow> ('t, 'r) state \<Rightarrow> nat \<times> ('t, 'r) state" where
  "wrapTaskWithIndex index task s =
     (length (heap s),
      s\<lparr>heap := heap s @ [\<lparr>hindex = index, htask = task, hstate = Pending\<rparr>]\<rparr>)"

text \<open>The operation behind handle \<open>h\<close> settles: its callback runs and the handle settles.\<close>

definition settled :: "nat \<Rightarrow> 'r outcome \<Rightarrow> ('t, 'r) state \<Rightarrow> ('t, 'r) state" where
  "settled h out s =
     (case wrapped (hindex (heap s ! h)) out s of
        (p, s') \<Rightarrow> s'\<lparr>heap := (heap s')[h := (heap s' ! h)\<lparr>hstate := p\<rparr>]\<rparr>)"

text \<open>
  The two branches of \<^verbatim>\<open>submit\<close>. \<open>admit\<close> is the vacant branch, \<open>substitute\<close> the
  assignment \<^verbatim>\<open>this.pool[returnIndex] = this.wrapTaskWithIndex(returnIndex, ...)\<close>.
  The list update leaves the array alone when \<open>returnIndex\<close> is out of range, where
  JavaScript would extend it; \<open>wf_returnIndex\<close> below shows that a handle never yields
  such an index.
\<close>

definition admit :: "nat \<Rightarrow> 't \<Rightarrow> ('t, 'r) state \<Rightarrow> ('t, 'r) state" where
  "admit index task s =
     (case wrapTaskWithIndex index task s of (h, s') \<Rightarrow> s'\<lparr>pool := pool s' @ [h]\<rparr>)"

definition substitute :: "nat \<Rightarrow> 't \<Rightarrow> ('t, 'r) state \<Rightarrow> ('t, 'r) state" where
  "substitute returnIndex task s =
     (case wrapTaskWithIndex returnIndex task s of
        (h, s') \<Rightarrow> s'\<lparr>pool := (pool s')[returnIndex := h]\<rparr>)"

section \<open>Errors and the timer\<close>

text \<open>
  \<^verbatim>\<open>getErrors\<close> returns what it printed with \<^verbatim>\<open>console.warn\<close> and either the
  thrown error or the returned array.
\<close>

definition getErrors :: "('t, 'r) state \<Rightarrow> string list \<times> ('r error + 'r list)" where
  "getErrors s =
     (if errorStrategy s = eager
      then ([''Pool strategy is set to report error immediately, getErrors would return an empty array''],
            Inr [])
      else if closed s then ([], Inr (errors s))
      else ([], Inl (EvalError ''Cannot sum up errors in unclosed pools. Call close() first.'')))"

text \<open>
  \<open>stamp\<close> is the value of \<^verbatim>\<open>process.hrtime()\<close>, \<open>elapsed\<close> that of
  \<^verbatim>\<open>process.hrtime(this.start)\<close>. The report carries the elapsed time and the flow
  (the counter); the rate and the rounding to \<^verbatim>\<open>precision\<close> digits are floating-point
  formatting of these two and are left out.
\<close>

definition startTimer :: "nat \<times> nat \<Rightarrow> ('t, 'r) state \<Rightarrow> string list \<times> ('t, 'r) state" where
  "startTimer stamp s =
     ((if count s
       then [''startTimer is called again before a stopTimer. The time of start would refresh.'']
       else []),
      s\<lparr>count := True, start := Some stamp\<rparr>)"

record report =
  time :: "nat \<times> nat"
  flow :: nat

definition endTimer :: "nat \<times> nat \<Rightarrow> ('t, 'r) state \<Rightarrow> 'r error + report \<times> ('t, 'r) state" where
  "endTimer elapsed s =
     (if \<not> count s then Inl (Error ''Cannot call endTimer before the timer is started'')
      else Inr (\<lparr>time = elapsed, flow = counter s\<rparr>,
                s\<lparr>start := None, count := False, counter := 0\<rparr>))"

section \<open>What happens while a caller is suspended\<close>

text \<open>
  Execution is single-threaded: between two suspension points of a caller nothing else
  runs. What happens while a caller waits is a list of events, in the order in which they
  happen:
  \<^item> \<open>Settle h out\<close>: the operation behind handle \<open>h\<close> settles with \<open>out\<close>;
  \<^item> \<open>Call task\<close>: some code (a running operation, for one) calls \<^verbatim>\<open>submit\<close> and does
    not wait for it;
  \<^item> \<open>Push item\<close>: a running operation pushes an item on the work list;
  \<^item> \<open>Wake\<close>: the timer of a \<^verbatim>\<open>sleep\<close> fires;
  \<^item> \<open>StartTimer\<close>, \<open>EndTimer\<close>: calls of the two timer methods.

  A suspended \<^verbatim>\<open>submit\<close> resumes as soon as its \<^verbatim>\<open>Promise.any\<close> is settled, the
  suspended calls in the order in which they were made. An \<^verbatim>\<open>await\<close> of a promise that
  is already settled is taken as immediate: events are interleaved only where a caller
  really waits, that is at \<^verbatim>\<open>Promise.any\<close> in \<^verbatim>\<open>submit\<close>, at \<^verbatim>\<open>Promise.all\<close> in
  \<^verbatim>\<open>ConcreteAll\<close> and at \<^verbatim>\<open>sleep\<close> in \<^verbatim>\<open>work\<close>. In particular a scan of the
  array by \<^verbatim>\<open>hasPending\<close> or \<^verbatim>\<open>isWorking\<close>, whose awaits are of the immediate kind,
  is one step.
\<close>

datatype ('t, 'r) event =
    Settle nat "'r outcome"
  | Call 't
  | Push 't
  | Wake
  | StartTimer "nat \<times> nat"
  | EndTimer "nat \<times> nat"

fun resume_each :: "(nat list \<times> 't) list \<Rightarrow> ('t, 'r) state \<Rightarrow> ('t, 'r) state" where
  "resume_each [] s = s"
| "resume_each ((snapshot, task) # ws) s =
     (case promise_any (states s snapshot) of
        Pending \<Rightarrow> resume_each ws (s\<lparr>waiters := waiters s @ [(snapshot, task)]\<rparr>)
      | Fulfilled returnIndex \<Rightarrow> resume_each ws (substitute returnIndex task s)
      | Rejected e \<Rightarrow> resume_each ws s)"

definition resume_waiters :: "('t, 'r) state \<Rightarrow> ('t, 'r) state" where
  "resume_waiters s = resume_each (waiters s) (s\<lparr>waiters := []\<rparr>)"

text \<open>The part of \<^verbatim>\<open>submit\<close> before its \<^verbatim>\<open>await\<close>, for a call nobody waits for.\<close>

definition submit_call :: "'t \<Rightarrow> ('t, 'r) state \<Rightarrow> ('t, 'r) state" where
  "submit_call task s =
     (case getVacantIndex s of
        Some index \<Rightarrow> admit index task s
      | None \<Rightarrow> s\<lparr>waiters := waiters s @ [(pool s, task)]\<rparr>)"

fun step :: "('t, 'r) event \<Rightarrow> ('t, 'r) state \<Rightarrow> ('t, 'r) state" where
  "step (Settle h out) s =
     (if h < length (heap s) \<and> hstate (heap s ! h) = Pending
      then resume_waiters (settled h out s) else s)"
| "step (Call task) s = resume_waiters (submit_call task s)"
| "step (Push item) s = s\<lparr>workList := workList s @ [item]\<rparr>"
| "step Wake s = s"
| "step (StartTimer stamp) s = snd (startTimer stamp s)"
| "step (EndTimer elapsed) s =
     (case endTimer elapsed s of Inl e \<Rightarrow> s | Inr (r, s') \<Rightarrow> s')"

definition run :: "('t, 'r) event list \<Rightarrow> ('t, 'r) state \<Rightarrow> ('t, 'r) state" where
  "run evs s = fold step evs s"

section \<open>Awaited calls\<close>

text \<open>
  An \<^verbatim>\<open>async\<close> function that the caller awaits takes the events to come. It returns
  a value, the state and the events left; or it throws; or it is still suspended when
  the events are used up, which stands for a call that never returns.
\<close>

datatype ('a, 's, 'e, 'x) async = Returned 'a 's "'e list" | Threw 'x | Suspended

fun await_any :: "nat list \<Rightarrow> ('t, 'r) state \<Rightarrow> ('t, 'r) event list
    \<Rightarrow> (nat, ('t, 'r) state, ('t, 'r) event, 'r error) async" where
  "await_any snapshot s evs =
     (case promise_any (states s snapshot) of
        Fulfilled v \<Rightarrow> Returned v s evs
      | Rejected e \<Rightarrow> Threw e
      | Pending \<Rightarrow>
          (case evs of [] \<Rightarrow> Suspended | e # es \<Rightarrow> await_any snapshot (step e s) es))"

fun await_all :: "nat list \<Rightarrow> ('t, 'r) state \<Rightarrow> ('t, 'r) event list
    \<Rightarrow> (unit, ('t, 'r) state, ('t, 'r) event, 'r error) async" where
  "await_all snapshot s evs =
     (case promise_all (states s snapshot) of
        Fulfilled v \<Rightarrow> Returned v s evs
      | Rejected e \<Rightarrow> Threw e
      | Pending \<Rightarrow>
          (case evs of [] \<Rightarrow> Suspended | e # es \<Rightarrow> await_all snapshot (step e s) es))"

definition submit :: "'t \<Rightarrow> ('t, 'r) state \<Rightarrow> ('t, 'r) event list
    \<Rightarrow> (unit, ('t, 'r) state, ('t, 'r) event, 'r error) async" where
  "submit task s evs =
     (case getVacantIndex s of
        Some index \<Rightarrow> Returned () (admit index task s) evs
      | None \<Rightarrow>
          (case await_any (pool s) s evs of
             Returned returnIndex s' evs' \<Rightarrow> Returned () (substitute returnIndex task s') evs'
           | Threw e \<Rightarrow> Threw e
           | Suspended \<Rightarrow> Suspended))"

text \<open>
  The loop of \<^verbatim>\<open>hasPending\<close> in \<^verbatim>\<open>ConcreteAll\<close>, which \<^verbatim>\<open>isWorking\<close> repeats over
  \<^verbatim>\<open>this.pool\<close>: the first pending entry answers true.
\<close>

fun hasPending :: "('v, 'r) promise list \<Rightarrow> bool option" where
  "hasPending [] = Some False"
| "hasPending (promise # promises) =
     (case GetState promise of
        None \<Rightarrow> None
      | Some state \<Rightarrow> if state = pending then Some True else hasPending promises)"

definition isWorking :: "('t, 'r) state \<Rightarrow> bool option" where
  "isWorking s = hasPending (states s (pool s))"

text \<open>
  \<^verbatim>\<open>ConcreteAll(this.pool)\<close>: \<^verbatim>\<open>promises\<close> is the array of the pool itself, so each scan
  reads the array as it is then, while \<^verbatim>\<open>Promise.all(promises)\<close> subscribes to the
  handles the array holds when it is called.
\<close>

function ConcreteAll :: "('t, 'r) state \<Rightarrow> ('t, 'r) event list
    \<Rightarrow> (unit, ('t, 'r) state, ('t, 'r) event, 'r error) async" where
  "ConcreteAll s evs =
     (case hasPending (states s (pool s)) of
        None \<Rightarrow> Suspended
      | Some False \<Rightarrow> Returned () s evs
      | Some True \<Rightarrow>
          (case await_all (pool s) s evs of
             Returned u s' evs' \<Rightarrow> ConcreteAll s' evs'
           | Threw e \<Rightarrow> Threw e
           | Suspended \<Rightarrow> Suspended))"
  by pat_completeness auto
termination
proof (relation "measure (\<lambda>(s, evs). length evs)")
  show "wf (measure (\<lambda>(s :: ('t, 'r) state, evs :: ('t, 'r) event list). length evs))"
    by simp
next
  fix s :: "('t, 'r) state" and evs :: "('t, 'r) event list" and b u s' evs'
  assume hp: "hasPending (states s (pool s)) = Some b" and b: "b = True"
    and ret: "await_all (pool s) s evs = Returned u s' evs'"
  have shorter: "length evs' \<le> length evs
      \<and> (promise_all (states s snap) = Pending \<longrightarrow> length evs' < length evs)"
    if "await_all snap s evs = Returned u s' evs'"
    for snap and s :: "('t, 'r) state" and evs :: "('t, 'r) event list" and u s' evs'
    using that
  proof (induction evs arbitrary: s)
    case Nil
    then show ?case by (auto split: promise.splits)
  next
    case (Cons e es)
    show ?case
    proof (cases "promise_all (states s snap)")
      case Pending
      with Cons.prems have "await_all snap (step e s) es = Returned u s' evs'" by simp
      from Cons.IH [OF this] Pending show ?thesis by simp
    next
      case (Fulfilled v)
      with Cons.prems show ?thesis by simp
    next
      case (Rejected r)
      with Cons.prems show ?thesis by simp
    qed
  qed
  have unfinished: "promise_all ps \<noteq> Fulfilled ()" if "hasPending ps = Some True"
    for ps :: "(nat, 'r) promise list"
    using that
  proof (induction ps)
    case Nil
    then show ?case by simp
  next
    case (Cons p ps)
    then show ?case
      by (cases p) (auto simp: promise_all_def GetState_def split: option.splits if_splits)
  qed
  from hp b have "promise_all (states s (pool s)) \<noteq> Fulfilled ()"
    using unfinished by simp
  moreover from ret have "\<forall>r. promise_all (states s (pool s)) \<noteq> Rejected r"
    by (cases evs) (auto split: promise.splits)
  ultimately have "promise_all (states s (pool s)) = Pending"
    by (cases "promise_all (states s (pool s))") auto
  with shorter [OF ret] show "((s', evs'), (s, evs)) \<in> measure (\<lambda>(s, evs). length evs)"
    by simp
qed

declare ConcreteAll.simps [simp del]

definition close :: "('t, 'r) state \<Rightarrow> ('t, 'r) event list
    \<Rightarrow> (unit, ('t, 'r) state, ('t, 'r) event, 'r error) async" where
  "close s evs =
     (case ConcreteAll s evs of
        Returned u s' evs' \<Rightarrow> Returned () (s'\<lparr>closed := True\<rparr>) evs'
      | Threw e \<Rightarrow> Threw e
      | Suspended \<Rightarrow> Suspended)"

section \<open>The work list\<close>

text \<open>
  The items of a \<^verbatim>\<open>WorkList<T>\<close> are JavaScript values; \<^verbatim>\<open>!item\<close> tests
  \<open>ToBoolean\<close>. Numbers are taken as integers (no fractions, no NaN).
\<close>

datatype js = Undefined | Null | Boolean bool | Number int | String string | Object nat

fun ToBoolean :: "js \<Rightarrow> bool" where
  "ToBoolean Undefined = False"
| "ToBoolean Null = False"
| "ToBoolean (Boolean b) = b"
| "ToBoolean (Number n) = (n \<noteq> 0)"
| "ToBoolean (String str) = (str \<noteq> [])"
| "ToBoolean (Object ref) = True"

definition WorkList :: "int \<Rightarrow> js list \<Rightarrow> (js, 'r) state" where
  "WorkList mw items = (AsyncPool mw lazy)\<lparr>workList := [] @ items\<rparr>"

text \<open>\<^verbatim>\<open>Array.prototype.pop\<close>: the last element, \<^verbatim>\<open>undefined\<close> on an empty array.\<close>

definition pop :: "(js, 'r) state \<Rightarrow> js \<times> (js, 'r) state" where
  "pop s =
     (if workList s = [] then (Undefined, s)
      else (last (workList s), s\<lparr>workList := butlast (workList s)\<rparr>))"

text \<open>\<^verbatim>\<open>await sleep(10)\<close>: events go on until the timer fires.\<close>

fun sleep :: "('t, 'r) state \<Rightarrow> ('t, 'r) event list
    \<Rightarrow> (unit, ('t, 'r) state, ('t, 'r) event, 'r error) async" where
  "sleep s [] = Suspended"
| "sleep s (Wake # es) = Returned () s es"
| "sleep s (e # es) = sleep (step e s) es"

function work :: "(js, 'r) state \<Rightarrow> (js, 'r) event list
    \<Rightarrow> (unit, (js, 'r) state, (js, 'r) event, 'r error) async" where
  "work s evs =
     (case (if length (workList s) > 0 then Some True else isWorking s) of
        None \<Rightarrow> Suspended
      | Some False \<Rightarrow> close s evs
      | Some True \<Rightarrow>
          (case pop s of
             (item, s1) \<Rightarrow>
               if \<not> ToBoolean item
               then (case sleep s1 evs of
                       Returned u s2 evs2 \<Rightarrow> work s2 evs2
                     | Threw e \<Rightarrow> Threw e
                     | Suspended \<Rightarrow> Suspended)
               else (case submit item s1 evs of
                       Returned u s2 evs2 \<Rightarrow> work s2 evs2
                     | Threw e \<Rightarrow> Threw e
                     | Suspended \<Rightarrow> Suspended)))"
  by pat_completeness auto

termination
proof (relation "measures [\<lambda>(s, evs). length evs, \<lambda>(s, evs). length (workList s)]", goal_cases)
  case 1
  show ?case by simp
next
  case (2 s evs b item s1 u s2 evs2)
  have "length evs' < length evs" if "sleep s evs = Returned u s' evs'"
    for s :: "(js, 'r) state" and evs :: "(js, 'r) event list" and u s' evs'
    using that by (induction s evs rule: sleep.induct) auto
  from this [OF 2(5)] show ?case by simp
next
  case (3 s evs b item s1 u s2 evs2)
  have waited: "length evs' \<le> length evs \<and> (length evs' = length evs \<longrightarrow> s' = s)"
    if "await_any snap s evs = Returned v s' evs'"
    for snap and s :: "(js, 'r) state" and evs :: "(js, 'r) event list" and v s' evs'
    using that
  proof (induction evs arbitrary: s)
    case Nil
    then show ?case by (auto split: promise.splits)
  next
    case (Cons e es)
    show ?case
    proof (cases "promise_any (states s snap)")
      case Pending
      with Cons.prems have "await_any snap (step e s) es = Returned v s' evs'" by simp
      from Cons.IH [OF this] show ?thesis by auto
    next
      case (Fulfilled w)
      with Cons.prems show ?thesis by simp
    next
      case (Rejected r)
      with Cons.prems show ?thesis by simp
    qed
  qed
  from 3(3,4) have popped: "length (workList s1) < length (workList s)"
    by (cases "workList s = []") (auto simp: pop_def)
  have "length evs2 \<le> length evs
      \<and> (length evs2 = length evs \<longrightarrow> workList s2 = workList s1)"
  proof (cases "getVacantIndex s1")
    case (Some index)
    with 3(5) show ?thesis
      by (auto simp: submit_def admit_def wrapTaskWithIndex_def)
  next
    case None
    with 3(5) obtain returnIndex s' where
      aw: "await_any (pool s1) s1 evs = Returned returnIndex s' evs2"
      and s2: "s2 = substitute returnIndex item s'"
      by (auto simp: submit_def split: async.splits)
    from waited [OF aw] s2 show ?thesis
      by (auto simp: substitute_def wrapTaskWithIndex_def)
  qed
  with popped show ?case by auto
qed

declare work.simps [simp del]

section \<open>Invariants and runs\<close>

text \<open>
  Well-formed states: every slot of the array refers to a handle of the heap whose
  captured index is that slot; every handle has captured an index of the array and, when
  fulfilled, is fulfilled with it; the suspended calls have subscribed to handles of the
  heap.
\<close>

definition wf :: "('t, 'r) state \<Rightarrow> bool" where
  "wf s =
     (list_all (\<lambda>h. h < length (heap s)) (pool s)
      \<and> map (\<lambda>h. hindex (heap s ! h)) (pool s) = [0..<length (pool s)]
      \<and> list_all (\<lambda>x. hindex x < length (pool s)
            \<and> (case hstate x of Fulfilled v \<Rightarrow> v = hindex x | _ \<Rightarrow> True)) (heap s)
      \<and> list_all (\<lambda>(snapshot, task). list_all (\<lambda>h. h < length (heap s)) snapshot)
            (waiters s))"

text \<open>
  The heap only grows: a later state keeps every handle, with its index and operation,
  and a handle that has settled keeps its state.
\<close>

definition extends :: "('t, 'r) state \<Rightarrow> ('t, 'r) state \<Rightarrow> bool" where
  "extends s s' =
     (length (heap s) \<le> length (heap s')
      \<and> (\<forall>h<length (heap s).
            hindex (heap s' ! h) = hindex (heap s ! h)
            \<and> htask (heap s' ! h) = htask (heap s ! h)
            \<and> (hstate (heap s ! h) \<noteq> Pending \<longrightarrow> hstate (heap s' ! h) = hstate (heap s ! h))))"




text \<open>A call of \<^verbatim>\<open>submit\<close> among the events.\<close>

fun is_call :: "('t, 'r) event \<Rightarrow> bool" where
  "is_call (Call task) = True"
| "is_call e = False"

text \<open>An event other than the failure of an operation.\<close>

fun succeeds :: "('t, 'r) event \<Rightarrow> bool" where
  "succeeds (Settle h (Rejects r)) = False"
| "succeeds e = True"

section \<open>Facts about the model\<close>

subsection \<open>Fields left alone\<close>

lemma GetState_simps [simp]:
  "GetState Pending = Some pending"
  "GetState (Fulfilled v) = Some fulfilled"
  "GetState (Rejected r) = Some rejected"
  by (simp_all add: GetState_def)

lemma admit_fields [simp]:
  "pool (admit i t s) = pool s @ [length (heap s)]"
  "heap (admit i t s) = heap s @ [\<lparr>hindex = i, htask = t, hstate = Pending\<rparr>]"
  "maxWorkers (admit i t s) = maxWorkers s"
  "errorStrategy (admit i t s) = errorStrategy s"
  "errors (admit i t s) = errors s"
  "counter (admit i t s) = counter s"
  "count (admit i t s) = count s"
  "closed (admit i t s) = closed s"
  "waiters (admit i t s) = waiters s"
  "workList (admit i t s) = workList s"
  by (simp_all add: admit_def wrapTaskWithIndex_def)

lemma substitute_fields [simp]:
  "pool (substitute i t s) = (pool s)[i := length (heap s)]"
  "heap (substitute i t s) = heap s @ [\<lparr>hindex = i, htask = t, hstate = Pending\<rparr>]"
  "maxWorkers (substitute i t s) = maxWorkers s"
  "errorStrategy (substitute i t s) = errorStrategy s"
  "errors (substitute i t s) = errors s"
  "counter (substitute i t s) = counter s"
  "count (substitute i t s) = count s"
  "closed (substitute i t s) = closed s"
  "waiters (substitute i t s) = waiters s"
  "workList (substitute i t s) = workList s"
  by (simp_all add: substitute_def wrapTaskWithIndex_def)

lemma settled_fields [simp]:
  "pool (settled h out s) = pool s"
  "maxWorkers (settled h out s) = maxWorkers s"
  "errorStrategy (settled h out s) = errorStrategy s"
  "count (settled h out s) = count s"
  "closed (settled h out s) = closed s"
  "waiters (settled h out s) = waiters s"
  "workList (settled h out s) = workList s"
  "length (heap (settled h out s)) = length (heap s)"
  by (simp_all add: settled_def wrapped_def split: outcome.splits)

lemma resume_each_frame:
  "maxWorkers (resume_each ws s) = maxWorkers s
   \<and> errorStrategy (resume_each ws s) = errorStrategy s
   \<and> errors (resume_each ws s) = errors s
   \<and> counter (resume_each ws s) = counter s
   \<and> count (resume_each ws s) = count s
   \<and> closed (resume_each ws s) = closed s
   \<and> workList (resume_each ws s) = workList s
   \<and> length (pool (resume_each ws s)) = length (pool s)"
proof (induction ws arbitrary: s)
  case Nil
  show ?case by simp
next
  case (Cons w ws)
  obtain snapshot task where w: "w = (snapshot, task)" by (cases w)
  show ?case
    by (cases "promise_any (states s snapshot)") (simp_all add: w Cons.IH)
qed

lemma resume_each_fields [simp]:
  "maxWorkers (resume_each ws s) = maxWorkers s"
  "errorStrategy (resume_each ws s) = errorStrategy s"
  "errors (resume_each ws s) = errors s"
  "counter (resume_each ws s) = counter s"
  "count (resume_each ws s) = count s"
  "closed (resume_each ws s) = closed s"
  "workList (resume_each ws s) = workList s"
  "length (pool (resume_each ws s)) = length (pool s)"
  by (simp_all add: resume_each_frame)

lemma resume_waiters_fields [simp]:
  "maxWorkers (resume_waiters s) = maxWorkers s"
  "errorStrategy (resume_waiters s) = errorStrategy s"
  "errors (resume_waiters s) = errors s"
  "counter (resume_waiters s) = counter s"
  "count (resume_waiters s) = count s"
  "closed (resume_waiters s) = closed s"
  "workList (resume_waiters s) = workList s"
  "length (pool (resume_waiters s)) = length (pool s)"
  by (simp_all add: resume_waiters_def)

subsection \<open>Well-formed states\<close>

lemma wf_iff:
  "wf s \<longleftrightarrow>
     (\<forall>k<length (pool s). pool s ! k < length (heap s) \<and> hindex (heap s ! (pool s ! k)) = k)
     \<and> (\<forall>h<length (heap s). hindex (heap s ! h) < length (pool s)
           \<and> (\<forall>v. hstate (heap s ! h) = Fulfilled v \<longrightarrow> v = hindex (heap s ! h)))
     \<and> (\<forall>w\<in>set (waiters s). \<forall>h\<in>set (fst w). h < length (heap s))"
proof -
  have a: "list_all (\<lambda>h. h < length (heap s)) (pool s)
      \<and> map (\<lambda>h. hindex (heap s ! h)) (pool s) = [0..<length (pool s)]
    \<longleftrightarrow> (\<forall>k<length (pool s). pool s ! k < length (heap s)
          \<and> hindex (heap s ! (pool s ! k)) = k)"
  proof -
    have "map (\<lambda>h. hindex (heap s ! h)) (pool s) = [0..<length (pool s)]
      \<longleftrightarrow> (\<forall>k<length (pool s). hindex (heap s ! (pool s ! k)) = k)"
      unfolding list_eq_iff_nth_eq by simp
    then show ?thesis
      unfolding list_all_length by blast
  qed
  have b: "list_all (\<lambda>x. hindex x < length (pool s)
            \<and> (case hstate x of Fulfilled v \<Rightarrow> v = hindex x | _ \<Rightarrow> True)) (heap s)
    \<longleftrightarrow> (\<forall>h<length (heap s). hindex (heap s ! h) < length (pool s)
           \<and> (\<forall>v. hstate (heap s ! h) = Fulfilled v \<longrightarrow> v = hindex (heap s ! h)))"
  proof -
    have eq: "(case hstate x of Fulfilled v \<Rightarrow> v = hindex x | _ \<Rightarrow> True)
        \<longleftrightarrow> (\<forall>v. hstate x = Fulfilled v \<longrightarrow> v = hindex x)"
      for x :: "('t, 'r) handle"
      by (cases "hstate x") auto
    show ?thesis
      by (simp only: list_all_length eq)
  qed
  have c: "list_all (\<lambda>(snapshot, task). list_all (\<lambda>h. h < length (heap s)) snapshot)
            (waiters s)
    \<longleftrightarrow> (\<forall>w\<in>set (waiters s). \<forall>h\<in>set (fst w). h < length (heap s))"
    by (auto simp: list_all_iff)
  show ?thesis unfolding wf_def using a b c by blast
qed


lemma wf_admit: "wf s \<Longrightarrow> wf (admit (length (pool s)) task s)"
  unfolding wf_iff
  by (auto simp: nth_append less_Suc_eq)

lemma wf_substitute: "wf s \<Longrightarrow> i < length (pool s) \<Longrightarrow> wf (substitute i task s)"
  unfolding wf_iff
  by (auto simp: nth_append nth_list_update less_Suc_eq)

lemma wf_settled: "wf s \<Longrightarrow> h < length (heap s) \<Longrightarrow> wf (settled h out s)"
  unfolding wf_iff
  by (auto simp: settled_def wrapped_def nth_list_update split: outcome.splits)


subsection \<open>The heap only grows\<close>

lemma extends_refl [simp]: "extends s s"
  by (simp add: extends_def)

lemma extends_trans: "extends s s' \<Longrightarrow> extends s' s'' \<Longrightarrow> extends s s''"
  unfolding extends_def by (metis (no_types, lifting) le_trans less_le_trans)

lemma extends_substitute [simp]: "extends s (substitute i task s)"
  by (simp add: extends_def nth_append)

lemma extends_admit [simp]: "extends s (admit i task s)"
  by (simp add: extends_def nth_append)

lemma extends_settled:
  "h < length (heap s) \<Longrightarrow> hstate (heap s ! h) = Pending \<Longrightarrow> extends s (settled h out s)"
  by (auto simp: extends_def settled_def wrapped_def nth_list_update split: outcome.splits)

lemma extends_waiters [simp]: "extends s (s\<lparr>waiters := ws\<rparr>)"
  by (simp add: extends_def)

lemma extends_resume_each: "extends s (resume_each ws s)"
proof (induction ws arbitrary: s)
  case Nil
  show ?case by simp
next
  case (Cons w ws)
  obtain snapshot task where w: "w = (snapshot, task)" by (cases w)
  show ?case
  proof (cases "promise_any (states s snapshot)")
    case Pending
    with Cons.IH [of "s\<lparr>waiters := waiters s @ [(snapshot, task)]\<rparr>"] show ?thesis
      by (auto simp: w intro: extends_trans [OF extends_waiters])
  next
    case (Fulfilled v)
    with Cons.IH [of "substitute v task s"] show ?thesis
      by (auto simp: w intro: extends_trans [OF extends_substitute])
  next
    case (Rejected e)
    with Cons.IH [of s] show ?thesis by (simp add: w)
  qed
qed

lemma extends_resume_waiters: "extends s (resume_waiters s)"
  unfolding resume_waiters_def
  by (rule extends_trans [OF extends_waiters extends_resume_each])

lemma extends_step: "extends s (step e s)"
proof (cases e)
  case (Settle h out)
  then show ?thesis
    by (auto intro: extends_trans [OF extends_settled extends_resume_waiters])
next
  case (Call task)
  have "extends s (submit_call task s)"
    by (simp add: submit_call_def split: option.splits)
  with Call show ?thesis
    by (auto intro: extends_trans [OF _ extends_resume_waiters])
next
  case (EndTimer elapsed)
  then show ?thesis
    by (auto simp: endTimer_def extends_def split: sum.splits)
qed (auto simp: extends_def startTimer_def)

lemma run_Nil [simp]: "run [] s = s"
  by (simp add: run_def)

lemma run_Cons [simp]: "run (e # es) s = run es (step e s)"
  by (simp add: run_def)

lemma run_append [simp]: "run (es @ es') s = run es' (run es s)"
  by (simp add: run_def)

lemma extends_run: "extends s (run evs s)"
proof (induction evs arbitrary: s)
  case Nil
  show ?case by simp
next
  case (Cons e es)
  from extends_trans [OF extends_step Cons.IH] show ?case by simp
qed


subsection \<open>The winner of a race\<close>

lemma first_fulfilled_skip:
  assumes "\<not> is_fulfilled p"
  shows "(\<exists>k<length (p # ps). (p # ps) ! k = Fulfilled v
            \<and> (\<forall>j<k. \<not> is_fulfilled ((p # ps) ! j)))
     \<longleftrightarrow> (\<exists>k<length ps. ps ! k = Fulfilled v \<and> (\<forall>j<k. \<not> is_fulfilled (ps ! j)))"
proof
  assume "\<exists>k<length (p # ps). (p # ps) ! k = Fulfilled v
      \<and> (\<forall>j<k. \<not> is_fulfilled ((p # ps) ! j))"
  then obtain k where k: "k < length (p # ps)" "(p # ps) ! k = Fulfilled v"
    "\<forall>j<k. \<not> is_fulfilled ((p # ps) ! j)" by blast
  from k(2) assms obtain k' where k': "k = Suc k'" by (cases k) auto
  from k k' have "k' < length ps" "ps ! k' = Fulfilled v" by auto
  moreover from k(3) k' have "\<forall>j<k'. \<not> is_fulfilled (ps ! j)" by auto
  ultimately show "\<exists>k<length ps. ps ! k = Fulfilled v \<and> (\<forall>j<k. \<not> is_fulfilled (ps ! j))"
    by blast
next
  assume "\<exists>k<length ps. ps ! k = Fulfilled v \<and> (\<forall>j<k. \<not> is_fulfilled (ps ! j))"
  then obtain k where k: "k < length ps" "ps ! k = Fulfilled v"
    "\<forall>j<k. \<not> is_fulfilled (ps ! j)" by blast
  have "\<forall>j<Suc k. \<not> is_fulfilled ((p # ps) ! j)"
    using k(3) assms by (auto simp: less_Suc_eq_0_disj)
  with k(1,2) show "\<exists>k<length (p # ps). (p # ps) ! k = Fulfilled v
      \<and> (\<forall>j<k. \<not> is_fulfilled ((p # ps) ! j))"
    by (intro exI [of _ "Suc k"]) simp
qed

lemma first_fulfilled_Some:
  "first_fulfilled ps = Some v \<longleftrightarrow>
     (\<exists>k<length ps. ps ! k = Fulfilled v \<and> (\<forall>j<k. \<not> is_fulfilled (ps ! j)))"
proof (induction ps)
  case Nil
  show ?case by simp
next
  case (Cons p ps)
  show ?case
  proof (cases "is_fulfilled p")
    case False
    then have "first_fulfilled (p # ps) = first_fulfilled ps" by (cases p) auto
    with first_fulfilled_skip [OF False] Cons.IH show ?thesis by simp
  next
    case True
    then obtain w where p: "p = Fulfilled w" by (cases p) auto
    show ?thesis
    proof
      assume "first_fulfilled (p # ps) = Some v"
      with p have "(p # ps) ! 0 = Fulfilled v" by simp
      then show "\<exists>k<length (p # ps). (p # ps) ! k = Fulfilled v
          \<and> (\<forall>j<k. \<not> is_fulfilled ((p # ps) ! j))"
        by (intro exI [of _ 0]) simp
    next
      assume "\<exists>k<length (p # ps). (p # ps) ! k = Fulfilled v
          \<and> (\<forall>j<k. \<not> is_fulfilled ((p # ps) ! j))"
      then obtain k where k: "(p # ps) ! k = Fulfilled v"
        "\<forall>j<k. \<not> is_fulfilled ((p # ps) ! j)" by blast
      have "k = 0"
      proof (rule ccontr)
        assume "k \<noteq> 0"
        with k(2) have "\<not> is_fulfilled ((p # ps) ! 0)" by blast
        with True show False by simp
      qed
      with k(1) p show "first_fulfilled (p # ps) = Some v" by simp
    qed
  qed
qed


lemma promise_any_Fulfilled:
  "promise_any ps = Fulfilled v \<longleftrightarrow> first_fulfilled ps = Some v"
  by (auto simp: promise_any_def split: option.splits)

lemma promise_any_Rejected:
  "promise_any ps = Rejected e \<longleftrightarrow>
     first_fulfilled ps = None \<and> list_all is_rejected ps \<and> e = AggregateError (reasons ps)"
  by (auto simp: promise_any_def split: option.splits)

lemma states_nth [simp]:
  "k < length refs \<Longrightarrow> states s refs ! k = hstate (heap s ! (refs ! k))"
  by (simp add: states_def)

lemma length_states [simp]: "length (states s refs) = length refs"
  by (simp add: states_def)

lemma won_in_range:
  assumes "wf s" and "\<forall>h\<in>set snapshot. h < length (heap s)"
    and "promise_any (states s snapshot) = Fulfilled v"
  shows "v < length (pool s)"
proof -
  from assms(3) obtain k where k: "k < length snapshot"
    "hstate (heap s ! (snapshot ! k)) = Fulfilled v"
    by (auto simp: promise_any_Fulfilled first_fulfilled_Some)
  from k(1) assms(2) have "snapshot ! k < length (heap s)" by simp
  with assms(1) k(2) show ?thesis
    unfolding wf_iff by metis
qed

subsection \<open>Events keep states well-formed\<close>

lemma wf_resume_each:
  "wf s \<Longrightarrow> \<forall>w\<in>set ws. \<forall>h\<in>set (fst w). h < length (heap s) \<Longrightarrow> wf (resume_each ws s)"
proof (induction ws arbitrary: s)
  case Nil
  then show ?case by simp
next
  case (Cons w ws)
  obtain snapshot task where w: "w = (snapshot, task)" by (cases w)
  from Cons.prems(2) w have snap: "\<forall>h\<in>set snapshot. h < length (heap s)" by simp
  show ?case
  proof (cases "promise_any (states s snapshot)")
    case Pending
    have "wf (s\<lparr>waiters := waiters s @ [(snapshot, task)]\<rparr>)"
      using Cons.prems(1) snap unfolding wf_iff by auto
    from Cons.IH [OF this] Cons.prems(2) Pending show ?thesis by (simp add: w)
  next
    case (Fulfilled v)
    from won_in_range [OF Cons.prems(1) snap Fulfilled]
    have "wf (substitute v task s)" by (rule wf_substitute [OF Cons.prems(1)])
    moreover have "\<forall>w\<in>set ws. \<forall>h\<in>set (fst w). h < length (heap (substitute v task s))"
      using Cons.prems(2) by (auto simp: less_Suc_eq)
    ultimately show ?thesis using Cons.IH Fulfilled by (simp add: w)
  next
    case (Rejected e)
    with Cons.IH [OF Cons.prems(1)] Cons.prems(2) show ?thesis by (simp add: w)
  qed
qed

lemma wf_resume_waiters: "wf s \<Longrightarrow> wf (resume_waiters s)"
proof -
  assume wf: "wf s"
  then have "wf (s\<lparr>waiters := []\<rparr>)" unfolding wf_iff by simp
  moreover from wf have "\<forall>w\<in>set (waiters s). \<forall>h\<in>set (fst w). h < length (heap (s\<lparr>waiters := []\<rparr>))"
    unfolding wf_iff by simp
  ultimately show ?thesis unfolding resume_waiters_def by (rule wf_resume_each)
qed

lemma wf_submit_call: "wf s \<Longrightarrow> wf (submit_call task s)"
proof (cases "getVacantIndex s")
  case None
  assume "wf s"
  then have "wf (s\<lparr>waiters := waiters s @ [(pool s, task)]\<rparr>)"
    unfolding wf_iff by (auto simp: in_set_conv_nth)
  with None show ?thesis by (simp add: submit_call_def)
next
  case (Some index)
  assume "wf s"
  from Some have "index = length (pool s)"
    by (simp add: getVacantIndex_def split: if_splits)
  with wf_admit [OF \<open>wf s\<close>] Some show ?thesis by (simp add: submit_call_def)
qed

lemma wf_step: "wf s \<Longrightarrow> wf (step e s)"
proof (cases e)
  case (Settle h out)
  assume "wf s"
  with Settle show ?thesis by (auto intro: wf_resume_waiters wf_settled)
next
  case (Call task)
  assume "wf s"
  with Call show ?thesis by (auto intro: wf_resume_waiters wf_submit_call)
next
  case (Push item)
  assume "wf s"
  with Push show ?thesis unfolding wf_iff by simp
next
  case Wake
  assume "wf s"
  with Wake show ?thesis by simp
next
  case (StartTimer stamp)
  assume "wf s"
  with StartTimer show ?thesis unfolding wf_iff by (simp add: startTimer_def)
next
  case (EndTimer elapsed)
  assume "wf s"
  with EndTimer show ?thesis unfolding wf_iff by (auto simp: endTimer_def)
qed

lemma wf_run: "wf s \<Longrightarrow> wf (run evs s)"
  by (induction evs arbitrary: s) (auto intro: wf_step)

subsection \<open>Waiting for a slot\<close>

lemma await_any_Returned:
  "await_any snapshot s evs = Returned v s' evs' \<Longrightarrow>
     \<exists>n\<le>length evs. evs' = drop n evs \<and> s' = run (take n evs) s
       \<and> first_fulfilled (states s' snapshot) = Some v
       \<and> (\<forall>m<n. promise_any (states (run (take m evs) s) snapshot) = Pending)"
proof (induction evs arbitrary: s)
  case Nil
  then show ?case
    by (auto simp: promise_any_Fulfilled split: promise.splits)
next
  case (Cons e es)
  show ?case
  proof (cases "promise_any (states s snapshot)")
    case Pending
    with Cons.prems have "await_any snapshot (step e s) es = Returned v s' evs'" by simp
    from Cons.IH [OF this] obtain n where n: "n \<le> length es" "evs' = drop n es"
      "s' = run (take n es) (step e s)" "first_fulfilled (states s' snapshot) = Some v"
      "\<forall>m<n. promise_any (states (run (take m es) (step e s)) snapshot) = Pending"
      by blast
    have "\<forall>m<Suc n. promise_any (states (run (take m (e # es)) s) snapshot) = Pending"
    proof (intro allI impI)
      fix m assume "m < Suc n"
      then show "promise_any (states (run (take m (e # es)) s) snapshot) = Pending"
        using Pending n(5) by (cases m) auto
    qed
    with n(1-4) show ?thesis
      by (intro exI [of _ "Suc n"]) simp
  next
    case (Fulfilled w)
    with Cons.prems show ?thesis
      by (intro exI [of _ 0]) (auto simp: promise_any_Fulfilled)
  next
    case (Rejected r)
    with Cons.prems show ?thesis by simp
  qed
qed

lemma await_any_Threw:
  "await_any snapshot s evs = Threw e \<Longrightarrow>
     \<exists>n\<le>length evs. list_all is_rejected (states (run (take n evs) s) snapshot)
       \<and> e = AggregateError (reasons (states (run (take n evs) s) snapshot))"
proof (induction evs arbitrary: s)
  case Nil
  then show ?case
    by (auto simp: promise_any_Rejected split: promise.splits)
next
  case (Cons e' es)
  show ?case
  proof (cases "promise_any (states s snapshot)")
    case Pending
    with Cons.prems have "await_any snapshot (step e' s) es = Threw e" by simp
    from Cons.IH [OF this] obtain n where "n \<le> length es"
      "list_all is_rejected (states (run (take n es) (step e' s)) snapshot)"
      "e = AggregateError (reasons (states (run (take n es) (step e' s)) snapshot))"
      by blast
    then show ?thesis by (intro exI [of _ "Suc n"]) simp
  next
    case (Fulfilled w)
    with Cons.prems show ?thesis by simp
  next
    case (Rejected r)
    with Cons.prems show ?thesis
      by (intro exI [of _ 0]) (auto simp: promise_any_Rejected)
  qed
qed




lemma winner_slot:
  assumes "wf s" and "first_fulfilled (states (run es s) (pool s)) = Some v"
  shows "v < length (pool s) \<and> hstate (heap (run es s) ! (pool s ! v)) = Fulfilled v"
proof -
  from assms(2) obtain k where k: "k < length (pool s)"
    "hstate (heap (run es s) ! (pool s ! k)) = Fulfilled v"
    by (auto simp: first_fulfilled_Some)
  from assms(1) k(1) have h: "pool s ! k < length (heap s)"
    "hindex (heap s ! (pool s ! k)) = k"
    unfolding wf_iff by auto
  from extends_run [of s es] h(1) have
    "pool s ! k < length (heap (run es s))"
    "hindex (heap (run es s) ! (pool s ! k)) = hindex (heap s ! (pool s ! k))"
    by (auto simp: extends_def)
  moreover from wf_run [OF assms(1), of es] have
    "\<forall>h<length (heap (run es s)). \<forall>v. hstate (heap (run es s) ! h) = Fulfilled v
        \<longrightarrow> v = hindex (heap (run es s) ! h)"
    unfolding wf_iff by blast
  ultimately have "v = k" using k(2) h(2) by metis
  with k show ?thesis by simp
qed

subsection \<open>The counter and the flag\<close>

lemma counter_step:
  "counter (step e s) =
     (case e of
        Settle h out \<Rightarrow>
          (case out of
             Resolves \<Rightarrow> counter s
           | Rejects r \<Rightarrow>
               if h < length (heap s) \<and> hstate (heap s ! h) = Pending
                  \<and> errorStrategy s = lazy \<and> count s
               then counter s + 1 else counter s)
      | EndTimer elapsed \<Rightarrow> if count s then 0 else counter s
      | _ \<Rightarrow> counter s)"
  by (cases e)
    (auto simp: settled_def wrapped_def submit_call_def startTimer_def endTimer_def
      split: outcome.splits option.splits)

lemma counter_run:
  "\<forall>e\<in>set evs. succeeds e \<Longrightarrow> counter s = 0 \<Longrightarrow> counter (run evs s) = 0"
proof (induction evs arbitrary: s)
  case Nil
  then show ?case by simp
next
  case (Cons e es)
  from Cons.prems have "succeeds e" by simp
  with Cons.prems(2) have "counter (step e s) = 0"
    by (cases e rule: succeeds.cases) (simp_all del: step.simps add: counter_step)
  with Cons.IH Cons.prems(1) show ?case by simp
qed

lemma closed_step [simp]: "closed (step e s) = closed s"
  by (cases e) (auto simp: submit_call_def startTimer_def endTimer_def split: option.splits)

lemma closed_run [simp]: "closed (run evs s) = closed s"
  by (induction evs arbitrary: s) auto

subsection \<open>Waiting for all handles\<close>




lemma states_closed [simp]: "states (s\<lparr>closed := b\<rparr>) refs = states s refs"
  by (simp add: states_def)


subsection \<open>The work loop\<close>



subsection \<open>The size of the array and the pending handles\<close>

lemma length_pool_step:
  "length (pool (step e s)) =
     (case e of
        Call task \<Rightarrow>
          if int (length (pool s)) < maxWorkers s then length (pool s) + 1 else length (pool s)
      | _ \<Rightarrow> length (pool s))"
  by (cases e)
    (auto simp: submit_call_def getVacantIndex_def startTimer_def endTimer_def)

lemma maxWorkers_step [simp]: "maxWorkers (step e s) = maxWorkers s"
  by (cases e)
    (auto simp: submit_call_def startTimer_def endTimer_def split: option.splits)

lemma maxWorkers_run [simp]: "maxWorkers (run evs s) = maxWorkers s"
  by (induction evs arbitrary: s) auto


lemma pool_full_run:
  "\<not> int (length (pool s)) < maxWorkers s \<Longrightarrow> length (pool (run evs s)) = length (pool s)"
proof (induction evs arbitrary: s)
  case Nil
  show ?case by simp
next
  case (Cons e es)
  from Cons.prems have l: "length (pool (step e s)) = length (pool s)"
    by (cases e) (auto simp: length_pool_step simp del: step.simps)
  with Cons.prems have "\<not> int (length (pool (step e s))) < maxWorkers (step e s)" by simp
  from Cons.IH [OF this] l show ?case by simp
qed

lemma wf_submit:
  assumes "wf s" and "submit task s evs = Returned u s' evs'"
  shows "wf s'"
proof (cases "getVacantIndex s")
  case (Some index)
  then have "index = length (pool s)"
    by (simp add: getVacantIndex_def split: if_splits)
  with Some assms(2) wf_admit [OF assms(1), of task] show ?thesis
    by (auto simp: submit_def)
next
  case None
  with assms(2) obtain k s1 where aw: "await_any (pool s) s evs = Returned k s1 evs'"
    and s': "s' = substitute k task s1"
    by (auto simp: submit_def split: async.splits)
  from await_any_Returned [OF aw] obtain n where n: "s1 = run (take n evs) s"
    "first_fulfilled (states s1 (pool s)) = Some k" by blast
  from winner_slot [OF assms(1), of "take n evs" k] n have "k < length (pool s)" by simp
  moreover have "length (pool s1) = length (pool s)"
  proof -
    from None have "\<not> int (length (pool s)) < maxWorkers s"
      by (simp add: getVacantIndex_def split: if_splits)
    then show ?thesis unfolding n(1) by (rule pool_full_run)
  qed
  moreover from wf_run [OF assms(1)] n(1) have "wf s1" by simp
  ultimately show ?thesis unfolding s' by (intro wf_substitute) simp_all
qed









subsection \<open>An awaited call is a call\<close>

text \<open>
  An awaited \<^verbatim>\<open>submit\<close>, during which nobody else calls \<^verbatim>\<open>submit\<close>, does what the
  event \<open>Call\<close> followed by the events it consumes does.
\<close>

lemma states_waiters [simp]: "states (s\<lparr>waiters := ws\<rparr>) refs = states s refs"
  by (simp add: states_def)

lemma settled_waiters:
  "settled h out (s\<lparr>waiters := ws\<rparr>) = (settled h out s)\<lparr>waiters := ws\<rparr>"
  by (simp add: settled_def wrapped_def split: outcome.splits)

lemma idle_waiters: "waiters s = [] \<Longrightarrow> s\<lparr>waiters := []\<rparr> = s"
  by (cases s) simp

lemma waiters_step_idle: "waiters s = [] \<Longrightarrow> \<not> is_call e \<Longrightarrow> waiters (step e s) = []"
  by (cases e) (auto simp: resume_waiters_def startTimer_def endTimer_def)

lemma step_waiting:
  assumes "waiters s = []" and "\<not> is_call e" and "promise_any (states s snapshot) = Pending"
  shows "step e (s\<lparr>waiters := [(snapshot, task)]\<rparr>) =
     (case promise_any (states (step e s) snapshot) of
        Pending \<Rightarrow> (step e s)\<lparr>waiters := [(snapshot, task)]\<rparr>
      | Fulfilled v \<Rightarrow> substitute v task (step e s)
      | Rejected x \<Rightarrow> step e s)"
proof (cases e)
  case (Settle h out)
  show ?thesis
  proof (cases "h < length (heap s) \<and> hstate (heap s ! h) = Pending")
    case False
    with Settle assms(3) show ?thesis by auto
  next
    case True
    from assms(1) have idle: "(settled h out s)\<lparr>waiters := []\<rparr> = settled h out s"
      by (intro idle_waiters) simp
    from True Settle idle show ?thesis
      by (simp add: resume_waiters_def settled_waiters assms(1) split: promise.splits)
  qed
next
  case (Call t)
  with assms(2) show ?thesis by simp
next
  case (Push item)
  with assms(3) show ?thesis by (simp add: states_def)
next
  case Wake
  with assms(3) show ?thesis by simp
next
  case (StartTimer stamp)
  with assms(3) show ?thesis by (simp add: startTimer_def states_def)
next
  case (EndTimer elapsed)
  with assms(3) show ?thesis by (auto simp: endTimer_def states_def)
qed

lemma await_any_as_run:
  assumes "waiters s = []" and "promise_any (states s snapshot) = Pending"
    and "list_all (\<lambda>e. \<not> is_call e) evs"
    and "await_any snapshot s evs = Returned v s1 evs'"
  shows "\<exists>n\<le>length evs. evs' = drop n evs
     \<and> substitute v task s1 = run (take n evs) (s\<lparr>waiters := [(snapshot, task)]\<rparr>)"
  using assms
proof (induction evs arbitrary: s)
  case Nil
  then show ?case by simp
next
  case (Cons e es)
  from Cons.prems(3) have nc: "\<not> is_call e" and rest: "list_all (\<lambda>e. \<not> is_call e) es"
    by simp_all
  from Cons.prems(2,4) have aw: "await_any snapshot (step e s) es = Returned v s1 evs'"
    by simp
  note sw = step_waiting [OF Cons.prems(1) nc Cons.prems(2), of task]
  show ?case
  proof (cases "promise_any (states (step e s) snapshot)")
    case (Fulfilled w)
    with aw have "v = w" "s1 = step e s" "evs' = es" by (cases es; simp)+
    with sw Fulfilled show ?thesis by (intro exI [of _ 1]) simp
  next
    case (Rejected x)
    with aw show ?thesis by (cases es) simp_all
  next
    case Pending
    from Cons.IH [OF waiters_step_idle [OF Cons.prems(1) nc] Pending rest aw]
    obtain n where n: "n \<le> length es" "evs' = drop n es"
      "substitute v task s1 = run (take n es) ((step e s)\<lparr>waiters := [(snapshot, task)]\<rparr>)"
      by blast
    with sw Pending show ?thesis by (intro exI [of _ "Suc n"]) simp
  qed
qed

lemma submit_as_call:
  assumes "waiters s = []" and "list_all (\<lambda>e. \<not> is_call e) evs"
    and "submit task s evs = Returned u s' evs'"
  shows "\<exists>n\<le>length evs. evs' = drop n evs \<and> s' = run (Call task # take n evs) s"
proof (cases "getVacantIndex s")
  case (Some index)
  from assms(1) have "(admit index task s)\<lparr>waiters := []\<rparr> = admit index task s"
    by (intro idle_waiters) simp
  with Some assms(1,3) show ?thesis
    by (intro exI [of _ 0]) (auto simp: submit_def submit_call_def resume_waiters_def)
next
  case None
  with assms(3) obtain v s1 where aw: "await_any (pool s) s evs = Returned v s1 evs'"
    and s': "s' = substitute v task s1"
    by (auto simp: submit_def split: async.splits)
  show ?thesis
  proof (cases "promise_any (states s (pool s))")
    case (Fulfilled w)
    with aw have "v = w" "s1 = s" "evs' = evs" by (cases evs; simp)+
    have "resume_waiters (s\<lparr>waiters := [(pool s, task)]\<rparr>)
        = substitute w task (s\<lparr>waiters := []\<rparr>)"
      using Fulfilled by (simp add: resume_waiters_def)
    also have "\<dots> = substitute w task s"
      by (simp only: idle_waiters [OF assms(1)])
    finally have "step (Call task) s = substitute w task s"
      using None by (simp add: submit_call_def assms(1))
    with \<open>v = w\<close> \<open>s1 = s\<close> \<open>evs' = evs\<close> s' show ?thesis
      by (intro exI [of _ 0]) simp
  next
    case (Rejected x)
    with aw show ?thesis by (cases evs) simp_all
  next
    case Pending
    from await_any_as_run [OF assms(1) Pending assms(2) aw, of task]
    obtain n where n: "n \<le> length evs" "evs' = drop n evs"
      "substitute v task s1 = run (take n evs) (s\<lparr>waiters := [(pool s, task)]\<rparr>)"
      by blast
    from None Pending idle_waiters [OF assms(1)]
    have "step (Call task) s = s\<lparr>waiters := [(pool s, task)]\<rparr>"
      by (simp add: submit_call_def resume_waiters_def assms(1))
    with n s' show ?thesis by (intro exI [of _ n]) simp
  qed
qed

section \<open>The state poller\<close>

text \<open>
  C8. \<^verbatim>\<open>GetState\<close> classifies a promise from its state alone: a promise that has not
  settled is reported pending, one that has succeeded fulfilled, one that has failed
  rejected. It only reads the promise: the function returns a status and no promise.
\<close>

theorem GetState_classifies:
  "GetState (Pending :: ('v, 'r) promise) = Some pending
   \<and> GetState (Fulfilled v :: ('v, 'r) promise) = Some fulfilled
   \<and> GetState (Rejected r :: ('v, 'r) promise) = Some rejected"
  by simp

section \<open>The wrapper\<close>



section \<open>Reading the errors\<close>

text \<open>
  C5. \<^verbatim>\<open>getErrors\<close> has three cases. Under the eager strategy it returns the empty
  array and prints a warning, whether the pool is closed or not. Under the lazy strategy
  it returns \<open>errors\<close> when the pool is closed and throws an EvalError when it is not.
\<close>

theorem getErrors_cases:
  "(errorStrategy s = eager \<longrightarrow>
      snd (getErrors s) = Inr [] \<and> fst (getErrors s) \<noteq> [])
   \<and> (errorStrategy s = lazy \<and> closed s \<longrightarrow> getErrors s = ([], Inr (errors s)))
   \<and> (errorStrategy s = lazy \<and> \<not> closed s \<longrightarrow>
        (\<exists>msg. getErrors s = ([], Inl (EvalError msg))))"
  by (simp add: getErrors_def)

theorem getErrors_cases_witness:
  "snd (getErrors ((AsyncPool 2 eager :: (nat, string) state)\<lparr>closed := True\<rparr>)) = Inr []
   \<and> fst (getErrors (AsyncPool 2 eager :: (nat, string) state)) \<noteq> []
   \<and> getErrors ((AsyncPool 2 lazy :: (nat, string) state)\<lparr>errors := [''boom''], closed := True\<rparr>)
       = ([], Inr [''boom''])
   \<and> (\<exists>msg. getErrors (AsyncPool 2 lazy :: (nat, string) state) = ([], Inl (EvalError msg)))"
  using getErrors_cases [of "(AsyncPool 2 eager :: (nat, string) state)\<lparr>closed := True\<rparr>"]
    getErrors_cases [of "AsyncPool 2 eager :: (nat, string) state"]
    getErrors_cases [of "(AsyncPool 2 lazy :: (nat, string) state)\<lparr>errors := [''boom''], closed := True\<rparr>"]
    getErrors_cases [of "AsyncPool 2 lazy :: (nat, string) state"]
  by (simp add: AsyncPool_def)

section \<open>Submission\<close>








section \<open>The timer\<close>

text \<open>
  C9. The counter grows only when an operation fails, under the lazy strategy, while the
  timer runs; the success callback leaves the pool as it is. So after any events among
  which no operation fails, on a new pool, the counter is 0 and \<^verbatim>\<open>endTimer\<close> reports
  a flow of 0.
\<close>

theorem counter_only_on_failure:
  "(counter s < counter (step e s) \<longrightarrow>
      (\<exists>h r. e = Settle h (Rejects r)) \<and> errorStrategy s = lazy \<and> count s)
   \<and> wrapped i Resolves s = (Fulfilled i, s)
   \<and> ((\<forall>e\<in>set evs. succeeds e) \<longrightarrow>
        counter (run evs (AsyncPool mw es :: ('t, 'r) state)) = 0
        \<and> (\<forall>elapsed r s'. endTimer elapsed (run evs (AsyncPool mw es :: ('t, 'r) state))
               = Inr (r, s') \<longrightarrow> flow r = 0))"
proof (intro conjI impI)
  assume "counter s < counter (step e s)"
  then show "(\<exists>h r. e = Settle h (Rejects r))" "errorStrategy s = lazy" "count s"
    by (auto simp: counter_step split: event.splits outcome.splits if_splits)
next
  show "wrapped i Resolves s = (Fulfilled i, s)" by (simp add: wrapped_def)
next
  assume ok: "\<forall>e\<in>set evs. succeeds e"
  have "counter (AsyncPool mw es :: ('t, 'r) state) = 0" by (simp add: AsyncPool_def)
  from counter_run [OF ok this]
  show c: "counter (run evs (AsyncPool mw es :: ('t, 'r) state)) = 0" .
  then show "\<forall>elapsed r s'. endTimer elapsed (run evs (AsyncPool mw es :: ('t, 'r) state))
               = Inr (r, s') \<longrightarrow> flow r = 0"
    by (auto simp: endTimer_def split: if_splits)
qed


theorem counter_only_on_failure_witness:
  "counter (step (Call 7) (step (StartTimer (0, 0)) (AsyncPool 1 lazy :: (nat, string) state)))
     < counter (step (Settle 0 (Rejects ''boom''))
         (step (Call 7) (step (StartTimer (0, 0)) (AsyncPool 1 lazy :: (nat, string) state))))
   \<and> count (step (Call 7) (step (StartTimer (0, 0)) (AsyncPool 1 lazy :: (nat, string) state)))
   \<and> succeeds (StartTimer (0, 0) :: (nat, string) event)
   \<and> succeeds (Call 7 :: (nat, string) event)
   \<and> succeeds (Settle 0 Resolves :: (nat, string) event)
   \<and> counter (run [StartTimer (0, 0), Call 7, Settle 0 Resolves]
         (AsyncPool 1 lazy :: (nat, string) state)) = 0
   \<and> (\<exists>r s'. endTimer (2, 5) (run [StartTimer (0, 0), Call 7, Settle 0 Resolves]
         (AsyncPool 1 lazy :: (nat, string) state)) = Inr (r, s') \<and> flow r = 0)"
proof -
  let ?s0 = "AsyncPool 1 lazy :: (nat, string) state"
  let ?s1 = "step (Call 7) (step (StartTimer (0, 0)) ?s0)"
  let ?evs = "[StartTimer (0, 0), Call 7, Settle 0 Resolves :: (nat, string) event]"
  have up: "counter ?s1 < counter (step (Settle 0 (Rejects ''boom'')) ?s1)"
    by (simp add: AsyncPool_def startTimer_def submit_call_def getVacantIndex_def
        resume_waiters_def settled_def wrapped_def)
  have ok: "\<forall>e\<in>set ?evs. succeeds e" by simp
  have "count (run ?evs ?s0)"
    by (simp add: AsyncPool_def startTimer_def submit_call_def getVacantIndex_def
        resume_waiters_def settled_def wrapped_def)
  then obtain r s' where e: "endTimer (2, 5) (run ?evs ?s0) = Inr (r, s')"
    by (simp add: endTimer_def)
  from counter_only_on_failure [of ?s1 "Settle 0 (Rejects ''boom'')" 0 ?evs 1 lazy] up
  have "count ?s1" by blast
  moreover from counter_only_on_failure [of ?s1 "Settle 0 (Rejects ''boom'')" 0 ?evs 1 lazy]
    ok e
  have "counter (run ?evs ?s0) = 0" "flow r = 0" by blast+
  ultimately show ?thesis using up e by auto
qed

section \<open>Closing\<close>




section \<open>Draining the work list\<close>



text \<open>
  C10. When the item on top of the work list is falsy (\<open>0\<close>, the empty string,
  \<^verbatim>\<open>false\<close> and \<^verbatim>\<open>null\<close> are), \<^verbatim>\<open>work\<close> pops it and goes to sleep without
  submitting it: the run goes on from the state without the item, through the
  \<^verbatim>\<open>sleep\<close> of the empty-list path.
\<close>

theorem falsy_item_dropped:
  "(workList s = items @ [item] \<and> \<not> ToBoolean item \<longrightarrow>
      pop s = (item, s\<lparr>workList := items\<rparr>)
      \<and> work s evs =
          (case sleep (s\<lparr>workList := items\<rparr>) evs of
             Returned u s2 evs2 \<Rightarrow> work s2 evs2
           | Threw e \<Rightarrow> Threw e
           | Suspended \<Rightarrow> Suspended))
   \<and> \<not> ToBoolean (Number 0) \<and> \<not> ToBoolean (String []) \<and> \<not> ToBoolean (Boolean False)
   \<and> \<not> ToBoolean Null"
proof (intro conjI impI)
  assume a: "workList s = items @ [item] \<and> \<not> ToBoolean item"
  then show p: "pop s = (item, s\<lparr>workList := items\<rparr>)" by (simp add: pop_def)
  from a have "(if length (workList s) > 0 then Some True else isWorking s) = Some True"
    by simp
  with a p show "work s evs =
          (case sleep (s\<lparr>workList := items\<rparr>) evs of
             Returned u s2 evs2 \<Rightarrow> work s2 evs2
           | Threw e \<Rightarrow> Threw e
           | Suspended \<Rightarrow> Suspended)"
    by (subst work.simps) simp
qed simp_all


theorem falsy_item_dropped_witness:
  "workList (WorkList 1 [Object 0, Number 0] :: (js, string) state) = [Object 0] @ [Number 0]
   \<and> \<not> ToBoolean (Number 0)
   \<and> pop (WorkList 1 [Object 0, Number 0] :: (js, string) state)
       = (Number 0, WorkList 1 [Object 0])
   \<and> work (WorkList 1 [Object 0, Number 0] :: (js, string) state) []
       = Suspended
   \<and> (\<exists>s'. work (WorkList 1 [Object 0, Number 0] :: (js, string) state)
          [Wake, Settle 0 Resolves, Wake] = Returned () s' []
        \<and> map htask (heap s') = [Object 0])"
proof -
  let ?wl = "WorkList 1 [Object 0, Number 0] :: (js, string) state"
  let ?rest = "WorkList 1 [Object 0] :: (js, string) state"
  have wl: "workList ?wl = [Object 0] @ [Number 0]" by (simp add: WorkList_def)
  have upd: "?wl\<lparr>workList := [Object 0]\<rparr> = ?rest" by (simp add: WorkList_def)
  from falsy_item_dropped [of ?wl "[Object 0]" "Number 0" "[]"] wl upd
  have p: "pop ?wl = (Number 0, ?rest)"
    and w: "work ?wl [] = (case sleep ?rest [] of
             Returned u s2 evs2 \<Rightarrow> work s2 evs2
           | Threw e \<Rightarrow> Threw e
           | Suspended \<Rightarrow> Suspended)"
    by simp_all
  from w have susp: "work ?wl [] = Suspended" by simp
  let ?s' = "\<lparr>maxWorkers = 1, errorStrategy = lazy, pool = [0], errors = [], counter = 0,
       start = None, count = False, closed = True,
       heap = [\<lparr>hindex = 0, htask = Object 0, hstate = Fulfilled 0\<rparr>],
       waiters = [], workList = []\<rparr> :: (js, string) state"
  have "work ?wl [Wake, Settle 0 Resolves, Wake] = Returned () ?s' []" by code_simp
  then have "\<exists>s'. work ?wl [Wake, Settle 0 Resolves, Wake] = Returned () s' []
        \<and> map htask (heap s') = [Object 0]"
    by (intro exI [of _ ?s']) simp
  with wl p susp show ?thesis by simp
qed

end
